theory Spec2Isabelle
  imports Main "HOL-Library.Word"
begin

section \<open>The pooled byte buffer \<open>ioBuffer\<close>\<close>

text \<open>
  A shallow embedding of the type \<open>ioBuffer\<close> and of its methods. Byte storage lives in an
  explicit heap of backing arrays, because \<open>Cut\<close>, \<open>copy\<close> and the constructors decide
  which array a buffer refers to. A Go \<open>int\<close> is 64 bits wide on the 64-bit targets: a
  sum or difference of the read offset and a count that the caller or a sink supplies
  wraps around as Go's does (\<open>wrap64\<close>). Lengths and capacities of slices are sizes of
  objects in memory: they are natural numbers, and sums of them are not wrapped. A panic
  is the left summand of a result.
\<close>

subsection \<open>Constants, errors, machine integers\<close>

type_synonym byte = "8 word"

definition MinRead :: int where
  "MinRead = 2 ^ 9"

definition MaxRead :: int where
  "MaxRead = 2 ^ 17"

definition ResetOffMark :: int where
  "ResetOffMark = - 1"

definition DefaultSize :: int where
  "DefaultSize = 2 ^ 4"

text \<open>
  Error values: the package's own four, \<open>io.EOF\<close>, an error that implements
  \<open>net.Error\<close> (with the answer of its \<open>Timeout()\<close> method) and any other error.
\<close>

datatype error =
    EOF
  | ErrTooLarge
  | ErrNegativeCount
  | ErrInvalidWriteCount
  | io_EOF
  | NetError bool
  | OtherError nat

text \<open>
  A panic: one raised by the Go runtime (slice bounds out of range, \<open>make\<close> with a bad
  length, nil pointer dereference) or one raised by \<open>panic(err)\<close>.
\<close>

datatype abort = RuntimePanic | Panic error

definition int64 :: "int \<Rightarrow> bool" where
  "int64 x \<longleftrightarrow> - (2 ^ 63) \<le> x \<and> x < 2 ^ 63"

definition wrap64 :: "int \<Rightarrow> int" where
  "wrap64 x = (x + 2 ^ 63) mod 2 ^ 64 - 2 ^ 63"

subsection \<open>Heap, slices and the buffer record\<close>

text \<open>
  The heap is the list of backing arrays allocated so far; an address is an index into it
  and an allocation appends. The slice \<open>b.buf\<close> always starts at the first element of its
  array (the code only reslices it from 0), so it is the pair of the array's address and a
  length, and its capacity is the length of the array.
\<close>

type_synonym heap = "byte list list"

record ioBuffer =
  buf_arr :: nat
  buf_len :: nat
  off :: int
  offMark :: int
  count :: "32 word option"
  eof :: bool
  bptr :: "nat option"

text \<open>
  \<open>buf_arr\<close> and \<open>buf_len\<close> are the slice \<open>buf\<close>; \<open>count\<close> is the pointer to the atomic
  counter (\<open>None\<close> is nil); \<open>bptr\<close> is the field \<open>b\<close>, the pointer to the pooled slice.
\<close>

definition Cap :: "heap \<Rightarrow> ioBuffer \<Rightarrow> nat" where
  "Cap h b = length (h ! buf_arr b)"

definition Len :: "ioBuffer \<Rightarrow> int" where
  "Len b = wrap64 (int (buf_len b) - off b)"

text \<open>The bytes of \<open>b.buf[lo:hi]\<close>, for bounds that passed the slice check.\<close>

definition slice_bytes :: "heap \<Rightarrow> nat \<Rightarrow> nat \<Rightarrow> nat \<Rightarrow> byte list" where
  "slice_bytes h a lo hi = take (hi - lo) (drop lo (h ! a))"

text \<open>The unread bytes \<open>b.buf[b.off:]\<close>.\<close>

definition unread :: "heap \<Rightarrow> ioBuffer \<Rightarrow> byte list" where
  "unread h b = slice_bytes h (buf_arr b) (nat (off b)) (buf_len b)"

text \<open>
  The builtin \<open>copy(dst, src)\<close>: the first \<open>min (len dst) (len src)\<close> elements of
  \<open>dst\<close> are overwritten.
\<close>

definition go_copy :: "byte list \<Rightarrow> byte list \<Rightarrow> byte list" where
  "go_copy dst src =
     (let n = min (length dst) (length src) in take n src @ drop n dst)"

text \<open>Writing \<open>src\<close> into the array at address \<open>a\<close> from index \<open>i\<close> on.\<close>

definition store_at :: "heap \<Rightarrow> nat \<Rightarrow> nat \<Rightarrow> byte list \<Rightarrow> heap" where
  "store_at h a i src = h[a := take i (h ! a) @ go_copy (drop i (h ! a)) src]"

subsection \<open>Allocation\<close>

text \<open>
  \<open>make([]byte, n)\<close>: panics on a negative length, otherwise a new zeroed array.
\<close>

definition make_bytes :: "heap \<Rightarrow> int \<Rightarrow> abort + (heap \<times> nat)" where
  "make_bytes h n =
     (if n < 0 then Inl RuntimePanic
      else Inr (h @ [replicate (nat n) 0], length h))"

text \<open>
  Modelled from the spec: the allocator functions \<open>GetBytes\<close> and \<open>PutBytes\<close> are not
  among the sources. The spec's contract is \<open>Checkout(size)\<close> gives an owned region of
  capacity at least \<open>size\<close>, and \<open>Return(region)\<close> releases it. The parameter \<open>gb\<close>
  gives the backing array (its length is the capacity, its contents whatever the pool
  left there) that a checkout of a size yields; the region is owned, so it is a new
  address. \<open>PutBytes\<close> changes neither a buffer nor the contents of an array.
\<close>

definition alloc_ok :: "(nat \<Rightarrow> byte list) \<Rightarrow> bool" where
  "alloc_ok gb \<longleftrightarrow> (\<forall>n. n \<le> length (gb n))"

definition GetBytes :: "(nat \<Rightarrow> byte list) \<Rightarrow> heap \<Rightarrow> nat \<Rightarrow> heap \<times> nat" where
  "GetBytes gb h n = (h @ [gb n], length h)"

subsection \<open>Constructors\<close>

definition NewIoBuffer :: "(nat \<Rightarrow> byte list) \<Rightarrow> heap \<Rightarrow> int \<Rightarrow> heap \<times> ioBuffer" where
  "NewIoBuffer gb h capacity =
     (let c = (if capacity \<le> 0 then DefaultSize else capacity) in
      case GetBytes gb h (nat c) of
        (h1, a) \<Rightarrow>
          (h1, \<lparr>buf_arr = a, buf_len = 0, off = 0, offMark = ResetOffMark,
                count = Some 1, eof = False, bptr = Some a\<rparr>))"

text \<open>\<open>[]byte(s)\<close> is a new array holding the bytes of the string.\<close>

definition NewIoBufferString :: "(nat \<Rightarrow> byte list) \<Rightarrow> heap \<Rightarrow> byte list \<Rightarrow> heap \<times> ioBuffer" where
  "NewIoBufferString gb h s =
     (if s = [] then NewIoBuffer gb h 0
      else (h @ [s], \<lparr>buf_arr = length h, buf_len = length s, off = 0,
                         offMark = ResetOffMark, count = Some 1, eof = False, bptr = None\<rparr>))"

text \<open>
  The argument of \<open>NewIoBufferBytes\<close> is a slice of the caller: nil, or an array that is
  already in the heap and a length. The buffer adopts it.
\<close>

definition NewIoBufferBytes ::
  "(nat \<Rightarrow> byte list) \<Rightarrow> heap \<Rightarrow> (nat \<times> nat) option \<Rightarrow> heap \<times> ioBuffer" where
  "NewIoBufferBytes gb h bytes =
     (case bytes of
        None \<Rightarrow> NewIoBuffer gb h 0
      | Some (a, l) \<Rightarrow>
          (h, \<lparr>buf_arr = a, buf_len = l, off = 0, offMark = ResetOffMark,
               count = Some 1, eof = False, bptr = None\<rparr>))"

subsection \<open>Methods that touch only the offsets\<close>

definition Reset :: "ioBuffer \<Rightarrow> ioBuffer" where
  "Reset b = b\<lparr>buf_len := 0, off := 0, offMark := ResetOffMark, eof := False\<rparr>"

definition Mark :: "ioBuffer \<Rightarrow> ioBuffer" where
  "Mark b = b\<lparr>offMark := off b\<rparr>"

definition Restore :: "ioBuffer \<Rightarrow> ioBuffer" where
  "Restore b =
     (if offMark b \<noteq> ResetOffMark then b\<lparr>off := offMark b, offMark := ResetOffMark\<rparr>
      else b)"

definition Drain :: "ioBuffer \<Rightarrow> int \<Rightarrow> ioBuffer" where
  "Drain b offset =
     (if wrap64 (off b + offset) > int (buf_len b) then b
      else b\<lparr>off := wrap64 (off b + offset), offMark := ResetOffMark\<rparr>)"

definition SetEOF :: "ioBuffer \<Rightarrow> bool \<Rightarrow> ioBuffer" where
  "SetEOF b e = b\<lparr>eof := e\<rparr>"

text \<open>
  \<open>Count\<close> adds to the counter behind the pointer \<open>count\<close> (an \<open>int32\<close>, which wraps) and
  returns the new value; with a nil pointer the method call dereferences nil.
\<close>

definition Count :: "ioBuffer \<Rightarrow> 32 word \<Rightarrow> abort + (32 word \<times> ioBuffer)" where
  "Count b d =
     (case count b of
        None \<Rightarrow> Inl RuntimePanic
      | Some c \<Rightarrow> Inr (c + d, b\<lparr>count := Some (c + d)\<rparr>))"

subsection \<open>The invariant of the data model\<close>

text \<open>
  \<open>buf_wf\<close>: the slice \<open>buf\<close> is a slice of the heap (its array exists, its length is at most
  its capacity, and a capacity is an \<open>int\<close>). \<open>buf_inv\<close>: the invariant
  \<open>0 \<le> readOffset \<le> writeOffset \<le> C\<close>.
\<close>

definition buf_wf :: "heap \<Rightarrow> ioBuffer \<Rightarrow> bool" where
  "buf_wf h b \<longleftrightarrow> buf_arr b < length h \<and> buf_len b \<le> Cap h b \<and> int (Cap h b) < 2 ^ 63"

definition buf_inv :: "heap \<Rightarrow> ioBuffer \<Rightarrow> bool" where
  "buf_inv h b \<longleftrightarrow> 0 \<le> off b \<and> off b \<le> int (buf_len b) \<and> buf_len b \<le> Cap h b"

subsection \<open>Reading\<close>

text \<open>
  \<open>Read\<close> gets the destination \<open>p\<close> by value and returns its new contents together with
  the count, the error and the buffer.
\<close>

definition Read ::
  "heap \<Rightarrow> ioBuffer \<Rightarrow> byte list \<Rightarrow> abort + (int \<times> error option \<times> byte list \<times> ioBuffer)" where
  "Read h b p =
     (if off b \<ge> int (buf_len b) then
        (if length p = 0 then Inr (0, None, p, Reset b)
         else Inr (0, Some io_EOF, p, Reset b))
      else if off b < 0 then Inl RuntimePanic
      else
        (let src = unread h b;
             n = min (length p) (length src)
         in Inr (int n, None, go_copy p src, b\<lparr>off := off b + int n\<rparr>)))"

text \<open>
  A view returned by \<open>Peek\<close> or \<open>Bytes\<close> aliases the storage: the array and the bounds.
\<close>

type_synonym view = "nat \<times> nat \<times> nat"

definition view_bytes :: "heap \<Rightarrow> view \<Rightarrow> byte list" where
  "view_bytes h v = (case v of (a, lo, hi) \<Rightarrow> slice_bytes h a lo hi)"

definition Peek :: "heap \<Rightarrow> ioBuffer \<Rightarrow> int \<Rightarrow> abort + view option" where
  "Peek h b n =
     (if wrap64 (int (buf_len b) - off b) < n then Inr None
      else
        (let hi = wrap64 (off b + n) in
         if off b < 0 \<or> hi < off b \<or> hi > int (Cap h b) then Inl RuntimePanic
         else Inr (Some (buf_arr b, nat (off b), nat hi))))"

definition Bytes :: "heap \<Rightarrow> ioBuffer \<Rightarrow> abort + view" where
  "Bytes h b =
     (if off b < 0 \<or> off b > int (buf_len b) then Inl RuntimePanic
      else Inr (buf_arr b, nat (off b), buf_len b))"

subsection \<open>Cut\<close>

text \<open>
  The result is the heap, the receiver and the new buffer (\<open>None\<close> is the nil result).
  The struct literal of the new buffer sets \<open>buf\<close> and \<open>off\<close> only: every other field has
  its zero value.
\<close>

definition Cut :: "heap \<Rightarrow> ioBuffer \<Rightarrow> int \<Rightarrow> abort + (heap \<times> ioBuffer \<times> ioBuffer option)" where
  "Cut h b offset =
     (if wrap64 (off b + offset) > int (buf_len b) then Inr (h, b, None)
      else
        (case make_bytes h offset of
           Inl e \<Rightarrow> Inl e
         | Inr (h1, a) \<Rightarrow>
             (let hi = wrap64 (off b + offset) in
              if off b < 0 \<or> hi < off b \<or> hi > int (Cap h b) then Inl RuntimePanic
              else
                (let src = slice_bytes h (buf_arr b) (nat (off b)) (nat hi);
                     h2 = store_at h1 a 0 src;
                     b' = b\<lparr>off := wrap64 (off b + offset), offMark := ResetOffMark\<rparr>;
                     c = \<lparr>buf_arr = a, buf_len = nat offset, off = 0, offMark = 0,
                          count = None, eof = False, bptr = None\<rparr>
                 in Inr (h2, b', Some c)))))"

subsection \<open>Growing and writing\<close>

definition tryGrowByReslice :: "heap \<Rightarrow> ioBuffer \<Rightarrow> nat \<Rightarrow> ioBuffer \<times> nat \<times> bool" where
  "tryGrowByReslice h b n =
     (let l = buf_len b in
      if l + n \<le> Cap h b then (b\<lparr>buf_len := l + n\<rparr>, l, True)
      else (b, 0, False))"

text \<open>
  The method \<open>copy\<close>. Both branches evaluate \<open>b.buf[b.off:]\<close>, which panics unless
  \<open>0 \<le> off \<le> len\<close>; the new slice of the first branch has the requested length, which
  exceeds the number of unread bytes, so the builtin copies all of them.
\<close>

definition copy_buf ::
  "(nat \<Rightarrow> byte list) \<Rightarrow> heap \<Rightarrow> ioBuffer \<Rightarrow> int \<Rightarrow> abort + (heap \<times> ioBuffer)" where
  "copy_buf gb h b expand =
     (if off b < 0 \<or> off b > int (buf_len b) then Inl RuntimePanic
      else
        (let src = unread h b in
         if expand > 0 then
           (case GetBytes gb h (2 * Cap h b + nat expand) of
              (h1, a) \<Rightarrow>
                (let h2 = store_at h1 a 0 src in
                 if buf_len b - nat (off b) > length (h2 ! a) then Inl RuntimePanic
                 else Inr (h2, b\<lparr>buf_arr := a, buf_len := buf_len b - nat (off b), off := 0,
                                 bptr := Some a\<rparr>)))
         else
           Inr (store_at h (buf_arr b) 0 src,
                b\<lparr>buf_len := buf_len b - nat (off b), off := 0\<rparr>)))"

definition grow ::
  "(nat \<Rightarrow> byte list) \<Rightarrow> heap \<Rightarrow> ioBuffer \<Rightarrow> nat \<Rightarrow> abort + (heap \<times> ioBuffer \<times> int)" where
  "grow gb h b n =
     (let m = Len b;
          b1 = (if m = 0 \<and> off b \<noteq> 0 then Reset b else b)
      in case tryGrowByReslice h b1 n of
           (b2, i, ok) \<Rightarrow>
             if ok then Inr (h, b2, int i)
             else
               (case (if m + int n \<le> int (Cap h b1 div 2) then copy_buf gb h b1 0
                      else copy_buf gb h b1 (int n)) of
                  Inl e \<Rightarrow> Inl e
                | Inr (h3, b3) \<Rightarrow>
                    if m + int n < 0 \<or> m + int n > int (Cap h3 b3) then Inl RuntimePanic
                    else Inr (h3, b3\<lparr>off := 0, buf_len := nat (m + int n)\<rparr>, m)))"

definition Write ::
  "(nat \<Rightarrow> byte list) \<Rightarrow> heap \<Rightarrow> ioBuffer \<Rightarrow> byte list \<Rightarrow>
     abort + (int \<times> error option \<times> heap \<times> ioBuffer)" where
  "Write gb h b p =
     (case (case tryGrowByReslice h b (length p) of
              (b1, m, ok) \<Rightarrow> if ok then Inr (h, b1, int m) else grow gb h b (length p)) of
        Inl e \<Rightarrow> Inl e
      | Inr (h1, b1, m) \<Rightarrow>
          if m < 0 \<or> m > int (buf_len b1) then Inl RuntimePanic
          else
            (let k = min (buf_len b1 - nat m) (length p)
             in Inr (int k, None, store_at h1 (buf_arr b1) (nat m) (take k p), b1)))"

subsection \<open>WriteTo\<close>

text \<open>
  A loop of the source is a function for one pass through its body, which either returns
  or continues with a new state, and the iteration of that function. An iteration may go
  on forever, so the loops are partial functions into \<open>option\<close>.
\<close>

datatype ('r, 'c) step = Return 'r | Continue 'c

text \<open>
  A sink is an \<open>io.Writer\<close>: from its own state and the bytes offered it gives the count
  it reports, an error or nil, and its next state.
\<close>

type_synonym 's sink = "'s \<Rightarrow> byte list \<Rightarrow> (int \<times> error option) \<times> 's"

text \<open>The state of the loop: the sink, the buffer and the running total \<open>n\<close>.\<close>

definition WriteTo_iter ::
  "'s sink \<Rightarrow> heap \<Rightarrow> 's \<times> ioBuffer \<times> int \<Rightarrow>
     (abort + (int \<times> error option \<times> ioBuffer \<times> 's), 's \<times> ioBuffer \<times> int) step" where
  "WriteTo_iter w h st =
     (case st of (s, b, n) \<Rightarrow>
        if off b < int (buf_len b) then
          (let nBytes = Len b in
           if off b < 0 then Return (Inl RuntimePanic)
           else
             (case w s (unread h b) of
                ((m, e), s') \<Rightarrow>
                  if m > nBytes then Return (Inl (Panic ErrInvalidWriteCount))
                  else
                    (let b' = b\<lparr>off := wrap64 (off b + m)\<rparr>;
                         n' = wrap64 (n + m)
                     in if e \<noteq> None then Return (Inr (n', e, b', s'))
                        else if m = 0 \<or> m = nBytes then Return (Inr (n', None, b', s'))
                        else Continue (s', b', n'))))
        else Return (Inr (n, None, b, s)))"

partial_function (option) WriteTo_loop ::
  "'s sink \<Rightarrow> heap \<Rightarrow> 's \<times> ioBuffer \<times> int \<Rightarrow>
     (abort + (int \<times> error option \<times> ioBuffer \<times> 's)) option" where
  "WriteTo_loop w h st =
     (case WriteTo_iter w h st of
        Return r \<Rightarrow> Some r
      | Continue st' \<Rightarrow> WriteTo_loop w h st')"

declare WriteTo_loop.simps [code]

definition WriteTo ::
  "'s sink \<Rightarrow> heap \<Rightarrow> 's \<Rightarrow> ioBuffer \<Rightarrow>
     (abort + (int \<times> error option \<times> ioBuffer \<times> 's)) option" where
  "WriteTo w h s b = WriteTo_loop w h (s, b, 0)"

text \<open>
  \<open>WriteTo_at w h st0 st\<close>: the loop that started in \<open>st0\<close> begins a pass through its
  body in the state \<open>st\<close>.
\<close>

inductive WriteTo_at ::
  "'s sink \<Rightarrow> heap \<Rightarrow> 's \<times> ioBuffer \<times> int \<Rightarrow> 's \<times> ioBuffer \<times> int \<Rightarrow> bool"
  for w h st0 where
    first_pass: "WriteTo_at w h st0 st0"
  | next_pass: "WriteTo_at w h st0 st \<Longrightarrow> WriteTo_iter w h st = Continue st' \<Longrightarrow>
      WriteTo_at w h st0 st'"

code_pred WriteTo_at .

subsection \<open>ReadOnce\<close>

text \<open>
  A source is an \<open>io.Reader\<close>: from its own state, the read deadline that is armed and
  the number of bytes of room offered, it gives the bytes it stored (their number is the
  count \<open>m\<close> it reports), an error or nil, and its next state. Time is not modelled: what
  a deadline does shows in the answers of the source only. \<open>conn\<close> says whether the
  source is a \<open>net.Conn\<close>; a duration is a number of nanoseconds.
\<close>

datatype deadline = NoDeadline | Deadline int

type_synonym 'r reader = "'r \<Rightarrow> deadline \<Rightarrow> nat \<Rightarrow> (byte list \<times> error option) \<times> 'r"

record 'r ro_state =
  ro_first :: bool
  ro_loop :: bool
  ro_heap :: heap
  ro_buf :: ioBuffer
  ro_n :: int
  ro_src :: 'r

text \<open>\<open>te, ok := e.(net.Error); ok && te.Timeout()\<close>\<close>

fun is_timeout :: "error \<Rightarrow> bool" where
  "is_timeout (NetError t) = t"
| "is_timeout _ = False"


text \<open>Making room at the head of a pass that is not the first.\<close>

definition ReadOnce_room ::
  "(nat \<Rightarrow> byte list) \<Rightarrow> bool \<Rightarrow> heap \<Rightarrow> ioBuffer \<Rightarrow> abort + (heap \<times> ioBuffer)" where
  "ReadOnce_room gb first h b =
     (if first = False then
        (let free = int (Cap h b) - int (buf_len b) in
         if free < MinRead then
           (if wrap64 (off b + free) < MinRead then copy_buf gb h b MinRead
            else copy_buf gb h b 0)
         else Inr (h, b))
      else Inr (h, b))"

definition ReadOnce_deadline :: "bool \<Rightarrow> bool \<Rightarrow> int \<Rightarrow> deadline" where
  "ReadOnce_deadline conn first duration =
     (if conn then (if first then Deadline duration else Deadline (10 * 1000000))
      else NoDeadline)"

definition ReadOnce_iter ::
  "'r reader \<Rightarrow> (nat \<Rightarrow> byte list) \<Rightarrow> bool \<Rightarrow> int \<Rightarrow> 'r ro_state \<Rightarrow>
     (abort + (int \<times> error option \<times> heap \<times> ioBuffer \<times> 'r), 'r ro_state) step" where
  "ReadOnce_iter rd gb conn duration st =
     (case ReadOnce_room gb (ro_first st) (ro_heap st) (ro_buf st) of
        Inl a \<Rightarrow> Return (Inl a)
      | Inr (h1, b1) \<Rightarrow>
          (let l = Cap h1 b1 - buf_len b1 in
           case rd (ro_src st) (ReadOnce_deadline conn (ro_first st) duration) l of
             ((data, e), src') \<Rightarrow>
               (let m = length data;
                    h2 = store_at h1 (buf_arr b1) (buf_len b1) data
                in if m > 0 \<and> buf_len b1 + m > Cap h1 b1 then Return (Inl RuntimePanic)
                   else
                     (let b2 = (if m > 0 then b1\<lparr>buf_len := buf_len b1 + m\<rparr> else b1);
                          n = (if m > 0 then ro_n st + int m else ro_n st)
                      in case e of
                           Some err \<Rightarrow>
                             if is_timeout err \<and> \<not> ro_first st
                             then Return (Inr (n, None, h2, b2, src'))
                             else Return (Inr (n, Some err, h2, b2, src'))
                         | None \<Rightarrow>
                             (let loop1 = (if l \<noteq> m then False else ro_loop st);
                                  loop2 = (if n > MaxRead then False else loop1)
                              in if \<not> loop2 then Return (Inr (n, None, h2, b2, src'))
                                 else Continue \<lparr>ro_first = False, ro_loop = loop2,
                                        ro_heap = h2, ro_buf = b2, ro_n = n,
                                        ro_src = src'\<rparr>)))))"



definition ReadOnce_start :: "bool \<Rightarrow> heap \<Rightarrow> ioBuffer \<Rightarrow> 'r \<Rightarrow> 'r ro_state" where
  "ReadOnce_start conn h b src =
     \<lparr>ro_first = True, ro_loop = conn, ro_heap = h, ro_buf = b, ro_n = 0, ro_src = src\<rparr>"


text \<open>
  \<open>ReadOnce_at rd gb conn d st0 k st\<close>: the loop that started in \<open>st0\<close> begins its pass
  number \<open>k\<close> (counted from 0) in the state \<open>st\<close>; the \<open>k\<close> passes before it went round,
  which a pass does only after a read that returned no error.
\<close>

inductive ReadOnce_at ::
  "'r reader \<Rightarrow> (nat \<Rightarrow> byte list) \<Rightarrow> bool \<Rightarrow> int \<Rightarrow> 'r ro_state \<Rightarrow> nat \<Rightarrow> 'r ro_state \<Rightarrow> bool"
  for rd gb conn duration st0 where
    first_read: "ReadOnce_at rd gb conn duration st0 0 st0"
  | next_read: "ReadOnce_at rd gb conn duration st0 k st \<Longrightarrow>
      ReadOnce_iter rd gb conn duration st = Continue st' \<Longrightarrow>
      ReadOnce_at rd gb conn duration st0 (Suc k) st'"

code_pred ReadOnce_at .

section \<open>Properties\<close>

subsection \<open>Machine integers and the invariant\<close>

lemma wrap64_id: "int64 x \<Longrightarrow> wrap64 x = x"
  by (simp add: int64_def wrap64_def)

lemma Len_plain: "buf_wf h b \<Longrightarrow> buf_inv h b \<Longrightarrow> Len b = int (buf_len b) - off b"
  unfolding Len_def by (rule wrap64_id) (auto simp: buf_wf_def buf_inv_def int64_def)

lemma wrap64_add_left: "wrap64 (wrap64 x + y) = wrap64 (x + y)"
proof -
  have "(wrap64 x + y + 2 ^ 63) mod 2 ^ 64 = (x + y + 2 ^ 63) mod 2 ^ 64"
    unfolding wrap64_def
    using mod_add_left_eq [of "x + 2 ^ 63" "2 ^ 64" y] by (simp add: algebra_simps)
  then show ?thesis
    by (simp add: wrap64_def)
qed

lemma wrap64_add_neg: "wrap64 (- wrap64 x + y) = wrap64 (- x + y)"
proof -
  have "(- wrap64 x + y + 2 ^ 63) mod 2 ^ 64 = (- x + y + 2 ^ 63) mod 2 ^ 64"
    unfolding wrap64_def
    using mod_diff_right_eq [of "y + 2 ^ 64" "x + 2 ^ 63" "2 ^ 64"]
    by (simp add: algebra_simps mod_simps)
  then show ?thesis
    by (simp add: wrap64_def)
qed

text \<open>
  A buffer of the heap for which \<open>Len()\<close> is 0 has its read offset at the end of the
  written bytes, and so satisfies the invariant.
\<close>

lemma wrap64_zero:
  assumes "- (2 ^ 64) < x" "x < 2 ^ 64" "wrap64 x = 0"
  shows "x = 0"
proof -
  have m: "(x + 2 ^ 63) mod 2 ^ 64 = 2 ^ 63"
    using assms(3) by (simp add: wrap64_def)
  consider "x + 2 ^ 63 < 0" | "0 \<le> x + 2 ^ 63 \<and> x + 2 ^ 63 < 2 ^ 64" | "2 ^ 64 \<le> x + 2 ^ 63"
    by linarith
  then show ?thesis
  proof cases
    case 1
    then have "(x + 2 ^ 63) mod 2 ^ 64 = x + 2 ^ 63 + 2 ^ 64"
      using assms(1) by (intro int_mod_pos_eq [where q = "- 1"]) simp_all
    with m assms(1) show ?thesis by simp
  next
    case 2
    then have "(x + 2 ^ 63) mod 2 ^ 64 = x + 2 ^ 63"
      by simp
    with m show ?thesis by simp
  next
    case 3
    then have "(x + 2 ^ 63) mod 2 ^ 64 = x + 2 ^ 63 - 2 ^ 64"
      using assms(2) by (intro int_mod_pos_eq [where q = 1]) simp_all
    with m assms(2) show ?thesis by simp
  qed
qed

lemma Len_zero:
  assumes "buf_wf h b" "int64 (off b)" "Len b = 0"
  shows "off b = int (buf_len b)" and "buf_inv h b"
proof -
  have "- (2 ^ 64) < int (buf_len b) - off b" "int (buf_len b) - off b < 2 ^ 64"
    using assms(1,2) by (simp_all add: buf_wf_def int64_def)
  from wrap64_zero [OF this] assms(3) show "off b = int (buf_len b)"
    by (simp add: Len_def)
  then show "buf_inv h b"
    using assms(1) by (simp add: buf_inv_def buf_wf_def)
qed

subsection \<open>The builtin copy and stores into the heap\<close>

lemma go_copy_fits: "length src \<le> length dst \<Longrightarrow> go_copy dst src = src @ drop (length src) dst"
  by (simp add: go_copy_def min_def)

lemma length_go_copy: "length (go_copy dst src) = length dst"
  by (simp add: go_copy_def min_def)

lemma length_store_at: "length (store_at h a i src) = length h"
  by (simp add: store_at_def)

lemma store_at_same:
  "a < length h \<Longrightarrow> store_at h a i src ! a = take i (h ! a) @ go_copy (drop i (h ! a)) src"
  by (simp add: store_at_def)

lemma store_at_other: "a' \<noteq> a \<Longrightarrow> store_at h a i src ! a' = h ! a'"
  by (simp add: store_at_def)

lemma length_store_at_same:
  "a < length h \<Longrightarrow> length (store_at h a i src ! a) = length (h ! a)"
  by (simp add: store_at_same length_go_copy)

lemma store_at_unread:
  assumes "a < length h" "lo \<le> m" "m + length p \<le> length (h ! a)"
  shows "slice_bytes (store_at h a m p) a lo (m + length p) = slice_bytes h a lo m @ p"
proof -
  have "length p \<le> length (drop m (h ! a))"
    using assms(3) by simp
  then have "store_at h a m p ! a = take m (h ! a) @ p @ drop (length p) (drop m (h ! a))"
    using assms(1) by (simp add: store_at_same go_copy_fits)
  then show ?thesis
    using assms(2,3) by (simp add: slice_bytes_def drop_take)
qed

lemma length_unread:
  "buf_inv h b \<Longrightarrow> length (unread h b) = buf_len b - nat (off b)"
  by (auto simp: unread_def slice_bytes_def buf_inv_def Cap_def)

subsection \<open>Growing and writing\<close>

text \<open>
  Under the invariant the method \<open>copy\<close> keeps the unread bytes, at offset 0 of the same
  array when it slides and of a new array, of at least twice the capacity plus the
  expansion, when it allocates. \<open>grow\<close> returns the insertion index right behind the
  unread bytes, with room for the bytes to come, and \<open>Write\<close> appends: it returns the
  number of bytes given, keeps the invariant, and the unread bytes afterwards are the
  unread bytes before followed by the bytes written.
\<close>

lemma copy_buf_slide:
  assumes "buf_wf h b" "buf_inv h b" "expand \<le> 0"
  shows "\<exists>h1 b1. copy_buf gb h b expand = Inr (h1, b1)
     \<and> b1 = b\<lparr>buf_len := buf_len b - nat (off b), off := 0\<rparr>
     \<and> length h1 = length h \<and> Cap h1 b1 = Cap h b
     \<and> unread h1 b1 = unread h b"
proof -
  let ?u = "unread h b"
  have a: "buf_arr b < length h" "buf_len b \<le> length (h ! buf_arr b)" "0 \<le> off b"
    "off b \<le> int (buf_len b)"
    using assms(1,2) by (simp_all add: buf_wf_def buf_inv_def Cap_def)
  have lu: "length ?u = buf_len b - nat (off b)"
    using assms(2) by (rule length_unread)
  then have fit: "length ?u \<le> length (h ! buf_arr b)"
    using a by linarith
  have "store_at h (buf_arr b) 0 ?u ! buf_arr b = ?u @ drop (length ?u) (h ! buf_arr b)"
    using a(1) fit by (simp add: store_at_same go_copy_fits)
  then have "unread (store_at h (buf_arr b) 0 ?u) (b\<lparr>buf_len := buf_len b - nat (off b), off := 0\<rparr>) = ?u"
    using lu by (simp add: unread_def [of _ "b\<lparr>buf_len := _, off := _\<rparr>"] slice_bytes_def)
  then show ?thesis
    using assms(3) a
    by (simp add: copy_buf_def Let_def length_store_at Cap_def length_store_at_same)
qed

lemma copy_buf_alloc:
  assumes "alloc_ok gb" "buf_wf h b" "buf_inv h b" "0 < expand"
  shows "\<exists>h1 b1. copy_buf gb h b expand = Inr (h1, b1)
     \<and> buf_arr b1 = length h \<and> buf_len b1 = buf_len b - nat (off b) \<and> off b1 = 0
     \<and> offMark b1 = offMark b
     \<and> length h1 = Suc (length h) \<and> 2 * Cap h b + nat expand \<le> Cap h1 b1
     \<and> unread h1 b1 = unread h b"
proof -
  let ?u = "unread h b"
  let ?G = "gb (2 * Cap h b + nat expand)"
  have a: "buf_arr b < length h" "buf_len b \<le> length (h ! buf_arr b)" "0 \<le> off b"
    "off b \<le> int (buf_len b)"
    using assms(2,3) by (simp_all add: buf_wf_def buf_inv_def Cap_def)
  have lu: "length ?u = buf_len b - nat (off b)"
    using assms(3) by (rule length_unread)
  have G: "2 * Cap h b + nat expand \<le> length ?G"
    using assms(1) by (simp add: alloc_ok_def)
  have fit: "length ?u \<le> length ?G"
    using lu a G by (simp add: Cap_def)
  have st: "store_at (h @ [?G]) (length h) 0 ?u = h @ [?u @ drop (length ?u) ?G]"
    using fit by (simp add: store_at_def go_copy_fits)
  have "copy_buf gb h b expand = Inr (h @ [?u @ drop (length ?u) ?G],
      b\<lparr>buf_arr := length h, buf_len := buf_len b - nat (off b), off := 0,
        bptr := Some (length h)\<rparr>)"
    using assms(4) a fit lu by (simp add: copy_buf_def GetBytes_def st)
  moreover have "unread (h @ [?u @ drop (length ?u) ?G])
      (b\<lparr>buf_arr := length h, buf_len := buf_len b - nat (off b), off := 0,
        bptr := Some (length h)\<rparr>) = ?u"
    using lu by (simp add: unread_def [of _ "b\<lparr>buf_arr := _, buf_len := _, off := _, bptr := _\<rparr>"]
        slice_bytes_def)
  ultimately show ?thesis
    using G fit by (simp add: Cap_def)
qed

lemma grow_spec:
  assumes "alloc_ok gb" "buf_wf h b" "buf_inv h b"
  shows "\<exists>h1 b1 m. grow gb h b n = Inr (h1, b1, int m)
     \<and> buf_arr b1 < length h1 \<and> 0 \<le> off b1 \<and> nat (off b1) + length (unread h b) = m
     \<and> buf_len b1 = m + n \<and> buf_len b1 \<le> Cap h1 b1
     \<and> slice_bytes h1 (buf_arr b1) (nat (off b1)) m = unread h b"
proof -
  define b0 where "b0 = (if Len b = 0 \<and> off b \<noteq> 0 then Reset b else b)"
  have L: "Len b = int (buf_len b) - off b"
    using assms(2,3) by (rule Len_plain)
  have lu: "length (unread h b) = buf_len b - nat (off b)"
    using assms(3) by (rule length_unread)
  have a: "buf_arr b < length h" "buf_len b \<le> Cap h b" "0 \<le> off b" "off b \<le> int (buf_len b)"
    using assms(2,3) by (simp_all add: buf_wf_def buf_inv_def)
  have wf0: "buf_wf h b0" and inv0: "buf_inv h b0"
    using assms(2,3) by (auto simp: b0_def Reset_def buf_wf_def buf_inv_def Cap_def)
  have u0: "unread h b0 = unread h b"
    using L lu by (auto simp: b0_def Reset_def unread_def slice_bytes_def)
  have m0: "int (buf_len b0) - off b0 = Len b"
    using L by (auto simp: b0_def Reset_def)
  have c0: "Cap h b0 = Cap h b" "buf_arr b0 = buf_arr b" "0 \<le> off b0" "off b0 \<le> int (buf_len b0)"
    using a by (auto simp: b0_def Reset_def Cap_def)
  have lu0: "length (unread h b0) = buf_len b0 - nat (off b0)"
    using inv0 by (rule length_unread)
  have g: "grow gb h b n =
    (case tryGrowByReslice h b0 n of
       (b2, i, ok) \<Rightarrow>
         if ok then Inr (h, b2, int i)
         else
           (case (if Len b + int n \<le> int (Cap h b0 div 2) then copy_buf gb h b0 0
                  else copy_buf gb h b0 (int n)) of
              Inl e \<Rightarrow> Inl e
            | Inr (h3, b3) \<Rightarrow>
                if Len b + int n < 0 \<or> Len b + int n > int (Cap h3 b3) then Inl RuntimePanic
                else Inr (h3, b3\<lparr>off := 0, buf_len := nat (Len b + int n)\<rparr>, Len b)))"
    unfolding grow_def b0_def Let_def by (rule refl)
  have mm: "nat (Len b) = length (unread h b)" "0 \<le> Len b"
    using L lu a by linarith+
  show ?thesis
  proof (cases "buf_len b0 + n \<le> Cap h b0")
    case True
    let ?B = "b0\<lparr>buf_len := buf_len b0 + n\<rparr>"
    have "grow gb h b n = Inr (h, ?B, int (buf_len b0))"
      using True by (simp add: g tryGrowByReslice_def Let_def)
    moreover have "slice_bytes h (buf_arr ?B) (nat (off ?B)) (buf_len b0) = unread h b"
      using u0 by (simp add: unread_def)
    moreover have "nat (off ?B) + length (unread h b) = buf_len b0"
      using lu0 u0 c0 by simp
    moreover have "buf_arr ?B < length h" "0 \<le> off ?B" "buf_len ?B = buf_len b0 + n"
      "buf_len ?B \<le> Cap h ?B"
      using True c0 a(1) by (simp_all add: Cap_def)
    ultimately show ?thesis by blast
  next
    case noroom: False
    then have t: "tryGrowByReslice h b0 n = (b0, 0, False)"
      by (simp add: tryGrowByReslice_def)
    show ?thesis
    proof (cases "Len b + int n \<le> int (Cap h b0 div 2)")
      case True
      obtain h1 b1 where cp: "copy_buf gb h b0 0 = Inr (h1, b1)"
        and b1: "b1 = b0\<lparr>buf_len := buf_len b0 - nat (off b0), off := 0\<rparr>"
        and h1: "length h1 = length h" "Cap h1 b1 = Cap h b0" "unread h1 b1 = unread h b0"
        using copy_buf_slide [OF wf0 inv0, of 0 gb] by auto
      let ?B = "b1\<lparr>off := 0, buf_len := nat (Len b + int n)\<rparr>"
      have fit: "Len b + int n \<le> int (Cap h1 b1)"
        using True h1(2) by linarith
      have "grow gb h b n = Inr (h1, ?B, Len b)"
        using True cp fit mm(2) by (simp add: g t)
      then have "grow gb h b n = Inr (h1, ?B, int (length (unread h b)))"
        using mm by simp
      moreover have "slice_bytes h1 (buf_arr ?B) (nat (off ?B)) (length (unread h b)) = unread h b"
        using h1(3) u0 lu0 by (simp add: unread_def b1)
      moreover have "buf_arr ?B < length h1" "0 \<le> off ?B"
        "nat (off ?B) + length (unread h b) = length (unread h b)"
        using h1(1) c0 a(1) by (simp_all add: b1)
      moreover have "buf_len ?B = length (unread h b) + n"
        using mm by (simp add: nat_add_distrib)
      moreover have "buf_len ?B \<le> Cap h1 ?B"
        using fit mm by (simp add: Cap_def)
      ultimately show ?thesis by blast
    next
      case False
      have n: "0 < int n"
        using noroom wf0 by (simp add: buf_wf_def)
      obtain h1 b1 where cp: "copy_buf gb h b0 (int n) = Inr (h1, b1)"
        and b1: "buf_arr b1 = length h" "buf_len b1 = buf_len b0 - nat (off b0)" "off b1 = 0"
        and h1: "length h1 = Suc (length h)" "2 * Cap h b0 + nat (int n) \<le> Cap h1 b1"
          "unread h1 b1 = unread h b0"
        using copy_buf_alloc [OF assms(1) wf0 inv0 n] by auto
      let ?B = "b1\<lparr>off := 0, buf_len := nat (Len b + int n)\<rparr>"
      have "Len b \<le> int (Cap h b0)"
        using m0 wf0 c0 by (simp add: buf_wf_def)
      with h1(2) have fit: "Len b + int n \<le> int (Cap h1 b1)"
        by linarith
      have "grow gb h b n = Inr (h1, ?B, Len b)"
        using False cp fit mm(2) by (simp add: g t)
      then have "grow gb h b n = Inr (h1, ?B, int (length (unread h b)))"
        using mm by simp
      moreover have "slice_bytes h1 (buf_arr ?B) (nat (off ?B)) (length (unread h b)) = unread h b"
        using h1(3) u0 lu0 b1 by (simp add: unread_def)
      moreover have "buf_arr ?B < length h1" "0 \<le> off ?B"
        "nat (off ?B) + length (unread h b) = length (unread h b)"
        using h1(1) b1 by simp_all
      moreover have "buf_len ?B = length (unread h b) + n"
        using mm by (simp add: nat_add_distrib)
      moreover have "buf_len ?B \<le> Cap h1 ?B"
        using fit mm by (simp add: Cap_def)
      ultimately show ?thesis by blast
    qed
  qed
qed

lemma Write_appends:
  assumes "alloc_ok gb" "buf_wf h b" "buf_inv h b"
  shows "\<exists>h1 b1. Write gb h b p = Inr (int (length p), None, h1, b1)
     \<and> buf_arr b1 < length h1 \<and> buf_inv h1 b1 \<and> unread h1 b1 = unread h b @ p"
proof -
  have "\<exists>h1 b1 m.
     (case tryGrowByReslice h b (length p) of
        (b1, m, ok) \<Rightarrow> if ok then Inr (h, b1, int m) else grow gb h b (length p))
       = Inr (h1, b1, int m)
     \<and> buf_arr b1 < length h1 \<and> 0 \<le> off b1 \<and> nat (off b1) + length (unread h b) = m
     \<and> buf_len b1 = m + length p \<and> buf_len b1 \<le> Cap h1 b1
     \<and> slice_bytes h1 (buf_arr b1) (nat (off b1)) m = unread h b"
  proof (cases "buf_len b + length p \<le> Cap h b")
    case True
    let ?B = "b\<lparr>buf_len := buf_len b + length p\<rparr>"
    have "(case tryGrowByReslice h b (length p) of
        (b1, m, ok) \<Rightarrow> if ok then Inr (h, b1, int m) else grow gb h b (length p))
       = Inr (h, ?B, int (buf_len b))"
      using True by (simp add: tryGrowByReslice_def Let_def)
    moreover have "nat (off ?B) + length (unread h b) = buf_len b"
      using length_unread [OF assms(3)] assms(3) by (simp add: buf_inv_def) linarith
    moreover have "buf_arr ?B < length h" "0 \<le> off ?B" "buf_len ?B = buf_len b + length p"
      "buf_len ?B \<le> Cap h ?B" "slice_bytes h (buf_arr ?B) (nat (off ?B)) (buf_len b) = unread h b"
      using True assms(2,3) by (simp_all add: buf_wf_def buf_inv_def Cap_def unread_def)
    ultimately show ?thesis by blast
  next
    case False
    then show ?thesis
      using grow_spec [OF assms, of "length p"] by (simp add: tryGrowByReslice_def)
  qed
  then obtain h1 b1 m where
    g: "(case tryGrowByReslice h b (length p) of
        (b1, m, ok) \<Rightarrow> if ok then Inr (h, b1, int m) else grow gb h b (length p))
       = Inr (h1, b1, int m)"
    and f: "buf_arr b1 < length h1" "0 \<le> off b1" "nat (off b1) + length (unread h b) = m"
      "buf_len b1 = m + length p" "buf_len b1 \<le> Cap h1 b1"
      "slice_bytes h1 (buf_arr b1) (nat (off b1)) m = unread h b"
    by blast
  let ?h2 = "store_at h1 (buf_arr b1) m p"
  have w: "Write gb h b p = Inr (int (length p), None, ?h2, b1)"
    using f(4) by (simp add: Write_def g)
  have "slice_bytes ?h2 (buf_arr b1) (nat (off b1)) (m + length p)
      = slice_bytes h1 (buf_arr b1) (nat (off b1)) m @ p"
    using f by (intro store_at_unread) (simp_all add: Cap_def)
  then have "unread ?h2 b1 = unread h b @ p"
    using f(4,6) by (simp add: unread_def)
  moreover have "buf_inv ?h2 b1"
    using f by (simp add: buf_inv_def Cap_def length_store_at_same)
  ultimately show ?thesis
    using w f(1) by (simp add: length_store_at)
qed

subsection \<open>Write, then Read\<close>

lemma Read_all:
  assumes "0 \<le> off b" "int (buf_len b) = off b + int (length X)" "unread h b = X"
    "length X \<le> length Y"
  shows "\<exists>n e Y' b2. Read h b Y = Inr (n, e, Y', b2) \<and> take (length X) Y' = X \<and> Len b2 = 0
     \<and> (X \<noteq> [] \<longrightarrow> n = int (length X) \<and> e = None)"
proof (cases "X = []")
  case True
  then show ?thesis
    using assms by (simp add: Read_def Reset_def Len_def wrap64_def)
next
  case False
  let ?b2 = "b\<lparr>off := off b + int (length X)\<rparr>"
  have "Read h b Y = Inr (int (length X), None, X @ drop (length X) Y, ?b2)"
    using False assms by (simp add: Read_def go_copy_fits min_def Let_def)
  moreover have "Len ?b2 = 0"
    using assms(2) by (simp add: Len_def wrap64_def)
  ultimately show ?thesis by simp
qed

text \<open>
  C1. For an allocator that keeps its contract, a buffer of the heap without unread bytes
  (\<open>Len() = 0\<close>; the read offset is an \<open>int\<close>) and byte sequences \<open>X\<close> and \<open>Y\<close> with
  \<open>len(Y) \<ge> len(X)\<close>: \<open>Write(X)\<close> succeeds with the count \<open>len(X)\<close>, the following
  \<open>Read(Y)\<close> does not panic and leaves \<open>X\<close> in \<open>Y[:len(X)]\<close>, and \<open>Len()\<close> is 0
  afterwards; for a non-empty \<open>X\<close> the \<open>Read\<close> returns the count \<open>len(X)\<close> and no
  error.
\<close>

theorem Write_then_Read:
  assumes "alloc_ok gb" "buf_wf h b" "int64 (off b)" "Len b = 0" "length X \<le> length Y"
  shows "\<exists>h1 b1 n e Y' b2.
     Write gb h b X = Inr (int (length X), None, h1, b1)
     \<and> Read h1 b1 Y = Inr (n, e, Y', b2)
     \<and> take (length X) Y' = X \<and> Len b2 = 0
     \<and> (X \<noteq> [] \<longrightarrow> n = int (length X) \<and> e = None)"
proof -
  have inv0: "buf_inv h b" and "off b = int (buf_len b)"
    using Len_zero [OF assms(2-4)] by simp_all
  then have empty: "unread h b = []"
    using length_unread [OF inv0] by simp
  obtain h1 b1 where w: "Write gb h b X = Inr (int (length X), None, h1, b1)"
    and inv: "buf_inv h1 b1" and u: "unread h1 b1 = X"
    using Write_appends [OF assms(1,2) inv0, of X] empty by auto
  have "0 \<le> off b1" "int (buf_len b1) = off b1 + int (length X)"
    using inv length_unread [OF inv] u by (auto simp: buf_inv_def)
  from Read_all [OF this u assms(5)] w show ?thesis by blast
qed

theorem Write_then_Read_witness:
  "alloc_ok (\<lambda>n. replicate n 0)
   \<and> buf_wf [[0, 0, 0, 0]] \<lparr>buf_arr = 0, buf_len = 0, off = 0, offMark = - 1,
        count = Some 1, eof = False, bptr = Some 0\<rparr>
   \<and> int64 (off \<lparr>buf_arr = 0, buf_len = 0, off = 0, offMark = - 1,
        count = Some 1, eof = False, bptr = Some 0\<rparr>)
   \<and> Len \<lparr>buf_arr = 0, buf_len = 0, off = 0, offMark = - 1, count = Some 1, eof = False,
        bptr = Some 0\<rparr> = 0
   \<and> length [1, 2, 3, 4, 5, 6 :: byte] \<le> length [9, 9, 9, 9, 9, 9, 9, 9 :: byte]
   \<and> (\<exists>h1 b1 n e Y' b2.
        Write (\<lambda>n. replicate n 0) [[0, 0, 0, 0]] \<lparr>buf_arr = 0, buf_len = 0, off = 0,
          offMark = - 1, count = Some 1, eof = False, bptr = Some 0\<rparr> [1, 2, 3, 4, 5, 6]
          = Inr (int (length [1, 2, 3, 4, 5, 6 :: byte]), None, h1, b1)
        \<and> Read h1 b1 [9, 9, 9, 9, 9, 9, 9, 9] = Inr (n, e, Y', b2)
        \<and> take (length [1, 2, 3, 4, 5, 6 :: byte]) Y' = [1, 2, 3, 4, 5, 6] \<and> Len b2 = 0
        \<and> ([1, 2, 3, 4, 5, 6 :: byte] \<noteq> [] \<longrightarrow>
             n = int (length [1, 2, 3, 4, 5, 6 :: byte]) \<and> e = None))"
proof -
  let ?b = "\<lparr>buf_arr = 0, buf_len = 0, off = 0, offMark = - 1, count = Some 1, eof = False,
    bptr = Some 0\<rparr>"
  have 1: "alloc_ok (\<lambda>n. replicate n (0 :: byte))"
    by (simp add: alloc_ok_def)
  have 2: "buf_wf [[0, 0, 0, 0]] ?b"
    by (simp add: buf_wf_def Cap_def)
  have 3: "int64 (off ?b)"
    by (simp add: int64_def)
  have 4: "Len ?b = 0"
    by (simp add: Len_def wrap64_def)
  have 5: "length [1, 2, 3, 4, 5, 6 :: byte] \<le> length [9, 9, 9, 9, 9, 9, 9, 9 :: byte]"
    by simp
  from Write_then_Read [OF 1 2 3 4 5] 1 2 3 4 5 show ?thesis
    by blast
qed

subsection \<open>Read on a buffer without unread bytes\<close>

text \<open>
  C6. When no unread bytes remain (\<open>off \<ge> len(buf)\<close>), \<open>Read\<close> resets the buffer to
  empty (both offsets 0, no mark, no end-of-stream flag, \<open>Len() = 0\<close>), transfers
  nothing and does not panic; with a non-empty destination it returns \<open>io.EOF\<close>, with an
  empty one it returns no error.
\<close>

theorem Read_no_unread:
  assumes "off b \<ge> int (buf_len b)"
  shows "Read h b p = Inr (0, if p = [] then None else Some io_EOF, p, Reset b)
     \<and> buf_len (Reset b) = 0 \<and> off (Reset b) = 0 \<and> Len (Reset b) = 0
     \<and> offMark (Reset b) = ResetOffMark \<and> \<not> eof (Reset b)"
  using assms by (simp add: Read_def Reset_def Len_def wrap64_def)

theorem Read_no_unread_witness:
  "off \<lparr>buf_arr = 0, buf_len = 2, off = 2, offMark = 1, count = Some 1, eof = True,
        bptr = None\<rparr> \<ge> int 2
   \<and> Read [[1, 2]] \<lparr>buf_arr = 0, buf_len = 2, off = 2, offMark = 1, count = Some 1,
        eof = True, bptr = None\<rparr> [7]
     = Inr (0, Some io_EOF, [7],
         \<lparr>buf_arr = 0, buf_len = 0, off = 0, offMark = - 1, count = Some 1, eof = False,
          bptr = None\<rparr>)"
  using Read_no_unread [of "\<lparr>buf_arr = 0, buf_len = 2, off = 2, offMark = 1,
      count = Some 1, eof = True, bptr = None\<rparr>" "[[1, 2]]" "[7]"]
  by (simp add: Reset_def ResetOffMark_def)

subsection \<open>Mark and Restore\<close>

text \<open>
  On every buffer \<open>Mark\<close> followed by \<open>Restore\<close> leaves the read offset where it was
  and clears the mark, and \<open>Restore\<close> does nothing when the mark field is
  \<open>ResetOffMark\<close>, so a second \<open>Restore\<close> does nothing.
\<close>

lemma Restore_Mark: "Restore (Mark b) = b\<lparr>offMark := ResetOffMark\<rparr>"
  by (simp add: Restore_def Mark_def)

lemma Restore_unmarked: "offMark b = ResetOffMark \<Longrightarrow> Restore b = b"
  by (simp add: Restore_def)

lemma Restore_Restore: "Restore (Restore b) = Restore b"
  by (simp add: Restore_def)

text \<open>
  C4. The claim fails for a buffer obtained from \<open>Cut\<close>: the struct literal in \<open>Cut\<close>
  leaves \<open>offMark\<close> at its zero value 0, which is not \<open>ResetOffMark\<close>, where every
  constructor sets \<open>ResetOffMark\<close>. On the buffer cut from a three-byte buffer, on which
  \<open>Mark\<close> was never called, a \<open>Read\<close> of one byte moves the read offset to 1 and
  \<open>Restore\<close> then moves it back to 0 instead of leaving it unchanged.
\<close>

theorem Restore_on_Cut_buffer:
  "Cut [[1, 2, 3]] (snd (NewIoBufferBytes (\<lambda>n. replicate n 0) [[1, 2, 3]] (Some (0, 3)))) 2
     = Inr ([[1, 2, 3], [1, 2]],
         \<lparr>buf_arr = 0, buf_len = 3, off = 2, offMark = - 1, count = Some 1, eof = False,
          bptr = None\<rparr>,
         Some \<lparr>buf_arr = 1, buf_len = 2, off = 0, offMark = 0, count = None, eof = False,
          bptr = None\<rparr>)
   \<and> Read [[1, 2, 3], [1, 2]] \<lparr>buf_arr = 1, buf_len = 2, off = 0, offMark = 0,
        count = None, eof = False, bptr = None\<rparr> [0]
     = Inr (1, None, [1], \<lparr>buf_arr = 1, buf_len = 2, off = 1, offMark = 0, count = None,
          eof = False, bptr = None\<rparr>)
   \<and> off (Restore \<lparr>buf_arr = 1, buf_len = 2, off = 1, offMark = 0, count = None,
          eof = False, bptr = None\<rparr>) = 0"
  by (simp add: NewIoBufferBytes_def Cut_def make_bytes_def store_at_def Cap_def
      Read_def unread_def slice_bytes_def go_copy_def Restore_def wrap64_def ResetOffMark_def)

subsection \<open>Drain\<close>

text \<open>
  Under the invariant \<open>Drain\<close> advances by a count within the buffered length, and does
  nothing for a larger count as long as the sum \<open>off + offset\<close> does not overflow.
\<close>

lemma Drain_within:
  assumes "buf_wf h b" "buf_inv h b" "0 \<le> n" "n \<le> Len b"
  shows "Drain b n = b\<lparr>off := off b + n, offMark := ResetOffMark\<rparr>"
proof -
  have "int64 (off b + n)"
    using assms Len_plain [OF assms(1,2)] by (auto simp: buf_wf_def buf_inv_def int64_def)
  then show ?thesis
    using assms Len_plain [OF assms(1,2)] by (simp add: Drain_def wrap64_id)
qed

lemma Drain_beyond:
  assumes "buf_wf h b" "buf_inv h b" "Len b < n" "off b + n < 2 ^ 63"
  shows "Drain b n = b"
proof -
  have "int64 (off b + n)"
    using assms Len_plain [OF assms(1,2)] by (auto simp: buf_wf_def buf_inv_def int64_def)
  then show ?thesis
    using assms Len_plain [OF assms(1,2)] by (simp add: Drain_def wrap64_id)
qed

lemma Drain_negative:
  assumes "buf_wf h b" "buf_inv h b" "n < 0" "int64 n"
  shows "Drain b n = b\<lparr>off := off b + n, offMark := ResetOffMark\<rparr>"
proof -
  have "int64 (off b + n)"
    using assms by (auto simp: buf_wf_def buf_inv_def int64_def)
  then show ?thesis
    using assms by (auto simp add: Drain_def wrap64_id buf_inv_def)
qed

text \<open>
  C7. The test \<open>b.off+offset > len(b.buf)\<close> wraps around for a count near the largest
  \<open>int\<close>. On a two-byte buffer with one byte read (\<open>Len() = 1\<close>), \<open>Drain\<close> of
  \<open>9223372036854775807\<close>, which exceeds the buffered length, does not leave the state
  unchanged: the read offset becomes \<open>-9223372036854775808\<close>.
\<close>

theorem Drain_overflow_advances:
  "Read [[1, 2]] (snd (NewIoBufferBytes (\<lambda>n. replicate n 0) [[1, 2]] (Some (0, 2)))) [0]
     = Inr (1, None, [1], \<lparr>buf_arr = 0, buf_len = 2, off = 1, offMark = - 1,
          count = Some 1, eof = False, bptr = None\<rparr>)
   \<and> Len \<lparr>buf_arr = 0, buf_len = 2, off = 1, offMark = - 1, count = Some 1, eof = False,
        bptr = None\<rparr> = 1
   \<and> int64 9223372036854775807
   \<and> Drain \<lparr>buf_arr = 0, buf_len = 2, off = 1, offMark = - 1, count = Some 1, eof = False,
        bptr = None\<rparr> 9223372036854775807
     = \<lparr>buf_arr = 0, buf_len = 2, off = - 9223372036854775808, offMark = - 1,
        count = Some 1, eof = False, bptr = None\<rparr>"
  by (simp add: NewIoBufferBytes_def Read_def unread_def slice_bytes_def go_copy_def
      Drain_def Len_def wrap64_def ResetOffMark_def int64_def)

subsection \<open>Negative counts\<close>

text \<open>
  Under the invariant \<open>Peek\<close> and \<open>Cut\<close> with a negative count end in a runtime panic
  (slice bounds, length of \<open>make\<close>) before anything is changed, and \<open>Drain\<close> with a
  negative count moves the read offset back by that count.
\<close>

lemma Peek_negative:
  assumes "buf_wf h b" "buf_inv h b" "n < 0" "int64 n"
  shows "Peek h b n = Inl RuntimePanic"
proof -
  have "int64 (off b + n)" "int64 (int (buf_len b) - off b)"
    using assms by (auto simp: buf_wf_def buf_inv_def int64_def)
  then show ?thesis
    using assms by (auto simp add: Peek_def wrap64_id buf_inv_def Let_def)
qed

lemma Cut_negative:
  assumes "buf_wf h b" "buf_inv h b" "n < 0" "int64 n"
  shows "Cut h b n = Inl RuntimePanic"
proof -
  have "int64 (off b + n)"
    using assms by (auto simp: buf_wf_def buf_inv_def int64_def)
  then show ?thesis
    using assms by (auto simp add: Cut_def make_bytes_def wrap64_id buf_inv_def Let_def)
qed

text \<open>
  C3. \<open>Drain\<close> does not reject a negative count. On a two-byte buffer with one byte
  read, \<open>Drain(-1)\<close> moves the read offset back from 1 to 0, and on the same buffer with
  nothing read it makes the read offset \<open>-1\<close>.
\<close>

theorem Drain_negative_not_rejected:
  "Read [[1, 2]] (snd (NewIoBufferBytes (\<lambda>n. replicate n 0) [[1, 2]] (Some (0, 2)))) [0]
     = Inr (1, None, [1], \<lparr>buf_arr = 0, buf_len = 2, off = 1, offMark = - 1,
          count = Some 1, eof = False, bptr = None\<rparr>)
   \<and> Drain \<lparr>buf_arr = 0, buf_len = 2, off = 1, offMark = - 1, count = Some 1, eof = False,
        bptr = None\<rparr> (- 1)
     = \<lparr>buf_arr = 0, buf_len = 2, off = 0, offMark = - 1, count = Some 1, eof = False,
        bptr = None\<rparr>
   \<and> Drain \<lparr>buf_arr = 0, buf_len = 2, off = 0, offMark = - 1, count = Some 1, eof = False,
        bptr = None\<rparr> (- 1)
     = \<lparr>buf_arr = 0, buf_len = 2, off = - 1, offMark = - 1, count = Some 1, eof = False,
        bptr = None\<rparr>"
  by (simp add: NewIoBufferBytes_def Read_def unread_def slice_bytes_def go_copy_def
      Drain_def wrap64_def ResetOffMark_def)

subsection \<open>Cut\<close>

text \<open>
  Under the invariant, and as long as the sum \<open>off + offset\<close> does not overflow, \<open>Cut\<close>
  beyond the buffered length returns nil and changes nothing. \<open>Cut\<close> within the buffered
  length advances the source by the count, clears its mark, leaves every array of the old
  heap as it was, and returns a buffer over a new array that holds a copy of the first
  unread bytes. The two buffers are on different arrays: a store into the array of one
  does not change the unread bytes of the other.
\<close>

lemma Cut_beyond:
  assumes "buf_wf h b" "buf_inv h b" "Len b < n" "off b + n < 2 ^ 63"
  shows "Cut h b n = Inr (h, b, None)"
proof -
  have "int64 (off b + n)"
    using assms Len_plain [OF assms(1,2)] by (auto simp: buf_wf_def buf_inv_def int64_def)
  then show ?thesis
    using assms Len_plain [OF assms(1,2)] by (simp add: Cut_def wrap64_id)
qed

lemma Cut_within:
  assumes "buf_wf h b" "buf_inv h b" "0 \<le> n" "n \<le> Len b"
  shows "\<exists>h' c. Cut h b n = Inr (h', b\<lparr>off := off b + n, offMark := ResetOffMark\<rparr>, Some c)
     \<and> length h' = Suc (length h) \<and> (\<forall>a < length h. h' ! a = h ! a)
     \<and> buf_arr c = length h \<and> off c = 0 \<and> int (buf_len c) = n \<and> Cap h' c = nat n
     \<and> unread h' c = take (nat n) (unread h b)"
proof -
  define src where "src = slice_bytes h (buf_arr b) (nat (off b)) (nat (off b + n))"
  define c where "c = \<lparr>buf_arr = length h, buf_len = nat n, off = 0, offMark = 0,
    count = None, eof = False, bptr = None\<rparr>"
  have L: "Len b = int (buf_len b) - off b"
    using assms(1,2) by (rule Len_plain)
  have "int64 (off b + n)"
    using assms L by (auto simp: buf_wf_def buf_inv_def int64_def)
  then have w: "wrap64 (off b + n) = off b + n"
    by (rule wrap64_id)
  have a: "buf_arr b < length h" "buf_len b \<le> length (h ! buf_arr b)" "0 \<le> off b"
    "off b \<le> int (buf_len b)"
    using assms(1,2) by (simp_all add: buf_wf_def buf_inv_def Cap_def)
  have n: "nat (off b + n) - nat (off b) = nat n" "nat n \<le> buf_len b - nat (off b)"
    using assms(3,4) L a by linarith+
  have n': "nat n \<le> length (h ! buf_arr b) - nat (off b)"
    using n(2) a(2) by linarith
  have src: "src = take (nat n) (unread h b)" "length src = nat n"
    using n n' a by (simp_all add: src_def unread_def slice_bytes_def min_absorb2)
  have cut: "Cut h b n = Inr (store_at (h @ [replicate (nat n) 0]) (length h) 0 src,
      b\<lparr>off := off b + n, offMark := ResetOffMark\<rparr>, Some c)"
    using assms(3,4) L a
    by (simp add: Cut_def w make_bytes_def Cap_def src_def c_def Let_def)
  have h': "store_at (h @ [replicate (nat n) 0]) (length h) 0 src = h @ [src]"
    using src(2) by (simp add: store_at_def go_copy_def)
  have "unread (h @ [src]) c = src"
    using src(2) by (simp add: unread_def slice_bytes_def c_def)
  then have u: "unread (h @ [src]) c = take (nat n) (unread h b)"
    by (simp only: src(1))
  have c: "buf_arr c = length h" "off c = 0" "int (buf_len c) = n" "Cap (h @ [src]) c = nat n"
    using assms(3) src(2) by (simp_all add: c_def Cap_def)
  have "Cut h b n = Inr (h @ [src], b\<lparr>off := off b + n, offMark := ResetOffMark\<rparr>, Some c)"
    by (simp only: cut h')
  moreover have "length (h @ [src]) = Suc (length h)" "\<forall>a < length h. (h @ [src]) ! a = h ! a"
    by (simp_all add: nth_append)
  ultimately show ?thesis
    using u c by blast
qed

lemma Cut_independent:
  assumes "buf_wf h b" "buf_inv h b" "Cut h b n = Inr (h', b', Some c)"
  shows "buf_arr c \<noteq> buf_arr b'
     \<and> unread (store_at h' (buf_arr b') i xs) c = unread h' c
     \<and> unread (store_at h' (buf_arr c) i xs) b' = unread h' b'"
proof -
  have "buf_arr b < length h"
    using assms(1) by (simp add: buf_wf_def)
  moreover have "buf_arr c = length h \<and> buf_arr b' = buf_arr b"
    using assms(3)
    by (simp add: Cut_def make_bytes_def Let_def split: if_splits) auto
  ultimately have "buf_arr c \<noteq> buf_arr b'" by simp
  then show ?thesis
    by (simp add: unread_def slice_bytes_def store_at_other)
qed

text \<open>
  C5. The test \<open>b.off+offset > len(b.buf)\<close> in \<open>Cut\<close> wraps around as the one in
  \<open>Drain\<close> does. On a two-byte buffer with one byte read, \<open>Cut\<close> of
  \<open>9223372036854775807\<close>, which exceeds the buffered length, does not report
  insufficient data (a nil result): it panics.
\<close>

theorem Cut_overflow_panics:
  "Cut [[1, 2]] \<lparr>buf_arr = 0, buf_len = 2, off = 1, offMark = - 1, count = Some 1, eof = False,
        bptr = None\<rparr> 9223372036854775807 = Inl RuntimePanic"
  by (simp add: Cut_def make_bytes_def wrap64_def)

subsection \<open>The reference counter\<close>

text \<open>
  C10. The three constructors give a buffer whose counter exists and holds 1, and \<open>Count\<close>
  on such a buffer adds to it; a buffer that \<open>Cut\<close> returns has a nil counter, and \<open>Count\<close>
  on it panics on the nil pointer.
\<close>

theorem Cut_buffer_has_no_counter:
  "count (snd (NewIoBuffer gb h capacity)) = Some 1
   \<and> count (snd (NewIoBufferString gb h s)) = Some 1
   \<and> count (snd (NewIoBufferBytes gb h bytes)) = Some 1
   \<and> Count (snd (NewIoBuffer gb h capacity)) d
       = Inr (1 + d, (snd (NewIoBuffer gb h capacity))\<lparr>count := Some (1 + d)\<rparr>)
   \<and> (Cut h b offset = Inr (h', b', Some c) \<longrightarrow>
        count c = None \<and> Count c d = Inl RuntimePanic)"
  by (auto simp: NewIoBuffer_def NewIoBufferString_def NewIoBufferBytes_def GetBytes_def
      Cut_def Count_def make_bytes_def Let_def split: if_splits option.splits prod.splits)

theorem Cut_buffer_has_no_counter_witness:
  "Cut [[1, 2, 3]] \<lparr>buf_arr = 0, buf_len = 3, off = 0, offMark = - 1, count = Some 1,
        eof = False, bptr = None\<rparr> 2
     = Inr ([[1, 2, 3], [1, 2]],
         \<lparr>buf_arr = 0, buf_len = 3, off = 2, offMark = - 1, count = Some 1, eof = False,
          bptr = None\<rparr>,
         Some \<lparr>buf_arr = 1, buf_len = 2, off = 0, offMark = 0, count = None, eof = False,
          bptr = None\<rparr>)
   \<and> Count \<lparr>buf_arr = 1, buf_len = 2, off = 0, offMark = 0, count = None, eof = False,
          bptr = None\<rparr> 1 = Inl RuntimePanic"
  using Cut_buffer_has_no_counter [where h = "[[1, 2, 3]]" and offset = 2 and d = 1
      and b = "\<lparr>buf_arr = 0, buf_len = 3, off = 0, offMark = - 1, count = Some 1,
        eof = False, bptr = None\<rparr>"
      and h' = "[[1, 2, 3], [1, 2]]"
      and b' = "\<lparr>buf_arr = 0, buf_len = 3, off = 2, offMark = - 1, count = Some 1,
        eof = False, bptr = None\<rparr>"
      and c = "\<lparr>buf_arr = 1, buf_len = 2, off = 0, offMark = 0, count = None,
        eof = False, bptr = None\<rparr>"]
  by (simp add: Cut_def make_bytes_def store_at_def Cap_def slice_bytes_def go_copy_def
      wrap64_def ResetOffMark_def)

subsection \<open>The invariant\<close>

text \<open>
  \<open>Read\<close>, \<open>Reset\<close>, \<open>Mark\<close> and \<open>SetEOF\<close> keep the invariant, and so does \<open>Restore\<close>
  when the mark is absent or within the buffer. \<open>Write\<close> keeps it (\<open>Write_appends\<close>), as
  do \<open>Drain\<close> and \<open>Cut\<close> for a count that is not negative and does not overflow
  (\<open>Drain_within\<close>, \<open>Drain_beyond\<close>, \<open>Cut_within\<close>, \<open>Cut_beyond\<close>).
\<close>

lemma Read_keeps_invariant:
  assumes "buf_inv h b" "Read h b p = Inr (n, e, p', b')"
  shows "buf_inv h b' \<and> 0 \<le> n \<and> n \<le> int (length p)
     \<and> (off b < int (buf_len b) \<longrightarrow> off b' = off b + n \<and> e = None
            \<and> n = int (min (length p) (length (unread h b)))
            \<and> take (nat n) p' = take (nat n) (unread h b))"
  using assms length_unread [OF assms(1)]
  by (auto simp: Read_def Reset_def buf_inv_def Cap_def Let_def go_copy_def split: if_splits)

lemma offsets_keep_invariant:
  assumes "buf_inv h b"
  shows "buf_inv h (Reset b)" and "buf_inv h (Mark b)" and "buf_inv h (SetEOF b e)"
    and "offMark b = ResetOffMark \<or> 0 \<le> offMark b \<and> offMark b \<le> int (buf_len b) \<Longrightarrow>
      buf_inv h (Restore b)"
  using assms
  by (auto simp: Reset_def Mark_def SetEOF_def Restore_def buf_inv_def Cap_def ResetOffMark_def)


text \<open>
  C2. \<open>Restore\<close> breaks the invariant after a slide: the method \<open>copy\<close> moves the unread
  bytes to offset 0 and keeps the mark, where \<open>Reset\<close>, \<open>Drain\<close> and \<open>Cut\<close> clear it.
  A buffer over an array of 8 bytes holds 7; after a \<open>Read\<close> of 6, \<open>Mark\<close>, and a
  \<open>Write\<close> of 2 bytes (which slides) the invariant holds with length 3 and mark 6;
  \<open>Restore\<close> then sets the read offset to 6, beyond the length 3.
\<close>

theorem Restore_after_slide:
  "buf_inv [[1, 2, 3, 4, 5, 6, 7, 8]]
     (snd (NewIoBufferBytes (\<lambda>n. replicate n 0) [[1, 2, 3, 4, 5, 6, 7, 8]] (Some (0, 7))))
   \<and> Read [[1, 2, 3, 4, 5, 6, 7, 8]]
       (snd (NewIoBufferBytes (\<lambda>n. replicate n 0) [[1, 2, 3, 4, 5, 6, 7, 8]] (Some (0, 7))))
       [0, 0, 0, 0, 0, 0]
     = Inr (6, None, [1, 2, 3, 4, 5, 6],
         \<lparr>buf_arr = 0, buf_len = 7, off = 6, offMark = - 1, count = Some 1, eof = False,
          bptr = None\<rparr>)
   \<and> Write (\<lambda>n. replicate n 0) [[1, 2, 3, 4, 5, 6, 7, 8]]
       (Mark \<lparr>buf_arr = 0, buf_len = 7, off = 6, offMark = - 1, count = Some 1, eof = False,
          bptr = None\<rparr>) [9, 9]
     = Inr (2, None, [[7, 9, 9, 4, 5, 6, 7, 8]],
         \<lparr>buf_arr = 0, buf_len = 3, off = 0, offMark = 6, count = Some 1, eof = False,
          bptr = None\<rparr>)
   \<and> buf_inv [[7, 9, 9, 4, 5, 6, 7, 8]]
       \<lparr>buf_arr = 0, buf_len = 3, off = 0, offMark = 6, count = Some 1, eof = False,
          bptr = None\<rparr>
   \<and> Restore \<lparr>buf_arr = 0, buf_len = 3, off = 0, offMark = 6, count = Some 1, eof = False,
          bptr = None\<rparr>
     = \<lparr>buf_arr = 0, buf_len = 3, off = 6, offMark = - 1, count = Some 1, eof = False,
          bptr = None\<rparr>
   \<and> \<not> buf_inv [[7, 9, 9, 4, 5, 6, 7, 8]]
       \<lparr>buf_arr = 0, buf_len = 3, off = 6, offMark = - 1, count = Some 1, eof = False,
          bptr = None\<rparr>"
  by (simp add: NewIoBufferBytes_def buf_inv_def Cap_def Read_def unread_def slice_bytes_def
      go_copy_def Mark_def Write_def tryGrowByReslice_def grow_def Len_def wrap64_def
      copy_buf_def store_at_def Restore_def ResetOffMark_def)

subsection \<open>WriteTo\<close>

text \<open>
  The result of the whole loop is the result of the loop from any pass it reaches; the
  loop changes no field of the buffer but the read offset; and the running total follows
  the read offset (modulo the width of an \<open>int64\<close>).
\<close>

lemma WriteTo_at_loop:
  "WriteTo_at w h st0 st \<Longrightarrow> WriteTo_loop w h st0 = WriteTo_loop w h st"
proof (induction rule: WriteTo_at.induct)
  case first_pass
  show ?case by simp
next
  case (next_pass st st')
  then show ?case by (simp add: WriteTo_loop.simps [of w h st])
qed

lemma WriteTo_iter_Continue:
  assumes "WriteTo_iter w h (s, b, n) = Continue (s', b', n')"
  shows "\<exists>m. w s (unread h b) = ((m, None), s') \<and> 0 \<le> off b \<and> off b < int (buf_len b)
    \<and> m \<le> Len b \<and> m \<noteq> 0 \<and> m \<noteq> Len b
    \<and> b' = b\<lparr>off := wrap64 (off b + m)\<rparr> \<and> n' = wrap64 (n + m)"
  using assms
  by (auto simp: WriteTo_iter_def Let_def split: if_splits prod.splits)

lemma WriteTo_at_buffer:
  "WriteTo_at w h st0 st \<Longrightarrow>
     fst (snd st) = (fst (snd st0))\<lparr>off := off (fst (snd st))\<rparr>"
proof (induction rule: WriteTo_at.induct)
  case first_pass
  show ?case by simp
next
  case (next_pass st st')
  obtain s b n s' b' n' where st: "st = (s, b, n)" "st' = (s', b', n')"
    by (metis prod_cases3)
  from WriteTo_iter_Continue [OF next_pass(2) [unfolded st]]
  have 1: "b' = b\<lparr>off := off b'\<rparr>" by auto
  from next_pass(3) st have 2: "b = (fst (snd st0))\<lparr>off := off b\<rparr>" by simp
  have "b' = (fst (snd st0))\<lparr>off := off b'\<rparr>"
    by (subst 1, subst 2) simp
  with st show ?case by simp
qed


lemma WriteTo_at_total:
  "WriteTo_at w h st0 st \<Longrightarrow>
     wrap64 (snd (snd st) - off (fst (snd st))) = wrap64 (snd (snd st0) - off (fst (snd st0)))"
proof (induction rule: WriteTo_at.induct)
  case first_pass
  show ?case by simp
next
  case (next_pass st st')
  obtain s b n s' b' n' where st: "st = (s, b, n)" "st' = (s', b', n')"
    by (metis prod_cases3)
  from WriteTo_iter_Continue [OF next_pass(2) [unfolded st]]
  obtain m where m: "b' = b\<lparr>off := wrap64 (off b + m)\<rparr>" "n' = wrap64 (n + m)"
    by auto
  have "wrap64 (n' - off b') = wrap64 (wrap64 (n + m) + (- wrap64 (off b + m)))"
    using m by simp
  also have "\<dots> = wrap64 ((n + m) + (- wrap64 (off b + m)))"
    by (rule wrap64_add_left)
  also have "\<dots> = wrap64 (- wrap64 (off b + m) + (n + m))"
    by (simp only: add.commute)
  also have "\<dots> = wrap64 (- (off b + m) + (n + m))"
    by (rule wrap64_add_neg)
  also have "\<dots> = wrap64 (n - off b)"
    by (simp add: algebra_simps)
  finally show ?case
    using next_pass(3) st by simp
qed

text \<open>
  For a sink that keeps the contract of \<open>io.Writer\<close> (it reports between 0 and the number
  of bytes offered) the loop returns.
\<close>

lemma WriteTo_returns:
  assumes honest: "\<And>s p. 0 \<le> fst (fst (w s p)) \<and> fst (fst (w s p)) \<le> int (length p)"
    and "buf_wf h b" and "buf_inv h b"
  shows "\<exists>r. WriteTo_loop w h (s, b, n) = Some r"
  using assms(2,3)
proof (induction "buf_len b - nat (off b)" arbitrary: s b n rule: less_induct)
  case less
  have L: "Len b = int (buf_len b) - off b"
    using less.prems by (rule Len_plain)
  have u: "int (length (unread h b)) = int (buf_len b) - off b"
    using less.prems by (auto simp: unread_def slice_bytes_def buf_wf_def buf_inv_def Cap_def)
  obtain m e s' where r: "w s (unread h b) = ((m, e), s')"
    by (metis prod.collapse)
  have m: "0 \<le> m" "m \<le> Len b"
    using honest [of s "unread h b"] r u L by simp_all
  have adv: "wrap64 (off b + m) = off b + m"
    using m L less.prems by (intro wrap64_id) (simp add: int64_def buf_wf_def buf_inv_def)
  show ?case
  proof (cases "WriteTo_iter w h (s, b, n)")
    case (Return x)
    then show ?thesis by (simp add: WriteTo_loop.simps [of w h "(s, b, n)"])
  next
    case (Continue st')
    obtain s1 b1 n1 where st': "st' = (s1, b1, n1)"
      by (metis prod_cases3)
    from WriteTo_iter_Continue [OF Continue [unfolded st']] r adv
    have b1: "b1 = b\<lparr>off := off b + m\<rparr>" and "m \<noteq> 0" and lt: "off b < int (buf_len b)"
      by auto
    with m have pos: "0 < m" by simp
    have "buf_wf h b1" "buf_inv h b1"
      using less.prems m L by (simp_all add: b1 buf_wf_def buf_inv_def Cap_def)
    moreover have "buf_len b1 - nat (off b1) < buf_len b - nat (off b)"
      using pos lt less.prems(2) by (simp add: b1 buf_inv_def) linarith
    ultimately obtain r' where "WriteTo_loop w h (s1, b1, n1) = Some r'"
      using less.hyps by blast
    then show ?thesis
      by (simp add: WriteTo_loop.simps [of w h "(s, b, n)"] Continue st')
  qed
qed

text \<open>
  C8. Take any pass of the loop of \<open>WriteTo\<close> in which the sink is called (the buffer has
  unread bytes), and the count \<open>m\<close> the sink reports there. If \<open>m\<close> exceeds the number
  of bytes offered, \<open>WriteTo\<close> panics with \<open>ErrInvalidWriteCount\<close>. Otherwise the read
  offset advances by exactly \<open>m\<close>; \<open>WriteTo\<close> returns straight after this call (the
  sink is in the state this call left) when the sink reported an error, zero bytes or
  exactly the unread length; in the remaining case the loop begins another pass with
  the advanced offset.
\<close>

theorem WriteTo_sink_counts:
  assumes "buf_wf h b0"
    and "WriteTo_at w h (s0, b0, 0) (s, b, n)"
    and "0 \<le> off b" and "off b < int (buf_len b)"
    and "w s (unread h b) = ((m, e), s')" and "int64 m"
  shows "(m > Len b \<longrightarrow> WriteTo w h s0 b0 = Some (Inl (Panic ErrInvalidWriteCount)))
    \<and> (m \<le> Len b \<and> (e \<noteq> None \<or> m = 0 \<or> m = Len b) \<longrightarrow>
         WriteTo w h s0 b0 = Some (Inr (wrap64 (n + m), e, b\<lparr>off := off b + m\<rparr>, s')))
    \<and> (m \<le> Len b \<and> e = None \<and> m \<noteq> 0 \<and> m \<noteq> Len b \<longrightarrow>
         WriteTo_at w h (s0, b0, 0) (s', b\<lparr>off := off b + m\<rparr>, wrap64 (n + m)))"
proof -
  have b: "b = b0\<lparr>off := off b\<rparr>"
    using WriteTo_at_buffer [OF assms(2)] by simp
  have "buf_len b = buf_len b0"
    by (subst b) simp
  then have len: "int (buf_len b) < 2 ^ 63"
    using assms(1) by (simp add: buf_wf_def)
  have L: "Len b = int (buf_len b) - off b"
    unfolding Len_def using assms(3,4) len by (intro wrap64_id) (simp add: int64_def)
  have adv: "m \<le> Len b \<Longrightarrow> wrap64 (off b + m) = off b + m"
    using assms(3,6) len L by (intro wrap64_id) (simp add: int64_def)
  have loop: "WriteTo w h s0 b0 = WriteTo_loop w h (s, b, n)"
    unfolding WriteTo_def by (rule WriteTo_at_loop [OF assms(2)])
  have iter: "WriteTo_iter w h (s, b, n) =
    (if m > Len b then Return (Inl (Panic ErrInvalidWriteCount))
     else if e \<noteq> None \<or> m = 0 \<or> m = Len b
       then Return (Inr (wrap64 (n + m), e, b\<lparr>off := off b + m\<rparr>, s'))
       else Continue (s', b\<lparr>off := off b + m\<rparr>, wrap64 (n + m)))"
    using assms(3-5) adv by (auto simp: WriteTo_iter_def Let_def)
  show ?thesis
  proof (intro conjI impI)
    assume "m > Len b"
    then show "WriteTo w h s0 b0 = Some (Inl (Panic ErrInvalidWriteCount))"
      by (simp add: loop WriteTo_loop.simps [of w h "(s, b, n)"] iter)
  next
    assume "m \<le> Len b \<and> (e \<noteq> None \<or> m = 0 \<or> m = Len b)"
    then show "WriteTo w h s0 b0 = Some (Inr (wrap64 (n + m), e, b\<lparr>off := off b + m\<rparr>, s'))"
      by (simp add: loop WriteTo_loop.simps [of w h "(s, b, n)"] iter)
  next
    assume "m \<le> Len b \<and> e = None \<and> m \<noteq> 0 \<and> m \<noteq> Len b"
    then have "WriteTo_iter w h (s, b, n) = Continue (s', b\<lparr>off := off b + m\<rparr>, wrap64 (n + m))"
      by (simp add: iter)
    from WriteTo_at.next_pass [OF assms(2) this]
    show "WriteTo_at w h (s0, b0, 0) (s', b\<lparr>off := off b + m\<rparr>, wrap64 (n + m))" .
  qed
qed

theorem WriteTo_sink_counts_witness:
  "buf_wf [[1, 2, 3, 4, 5]] \<lparr>buf_arr = 0, buf_len = 5, off = 0, offMark = - 1,
       count = Some 1, eof = False, bptr = None\<rparr>
   \<and> WriteTo_at (\<lambda>s p. ((int (length p), None), s @ [p])) [[1, 2, 3, 4, 5]]
       ([], \<lparr>buf_arr = 0, buf_len = 5, off = 0, offMark = - 1, count = Some 1, eof = False,
         bptr = None\<rparr>, 0)
       ([], \<lparr>buf_arr = 0, buf_len = 5, off = 0, offMark = - 1, count = Some 1, eof = False,
         bptr = None\<rparr>, 0)
   \<and> int64 5
   \<and> WriteTo (\<lambda>s p. ((int (length p), None), s @ [p])) [[1, 2, 3, 4, 5]] []
       \<lparr>buf_arr = 0, buf_len = 5, off = 0, offMark = - 1, count = Some 1, eof = False,
         bptr = None\<rparr>
     = Some (Inr (5, None, \<lparr>buf_arr = 0, buf_len = 5, off = 5, offMark = - 1,
         count = Some 1, eof = False, bptr = None\<rparr>, [[1, 2, 3, 4, 5]]))"
proof -
  let ?w = "\<lambda>(s :: byte list list) (p :: byte list). ((int (length p), None :: error option), s @ [p])"
  let ?b = "\<lparr>buf_arr = 0, buf_len = 5, off = 0, offMark = - 1, count = Some 1, eof = False,
    bptr = None\<rparr>"
  have 1: "buf_wf [[1, 2, 3, 4, 5]] ?b"
    by (simp add: buf_wf_def Cap_def)
  have 2: "WriteTo_at ?w [[1, 2, 3, 4, 5]] ([], ?b, 0) ([], ?b, 0)"
    by (rule WriteTo_at.first_pass)
  have 3: "0 \<le> off ?b" "off ?b < int (buf_len ?b)"
    by simp_all
  have 4: "?w [] (unread [[1, 2, 3, 4, 5]] ?b) = ((5, None), [[1, 2, 3, 4, 5]])"
    by (simp add: unread_def slice_bytes_def)
  have 5: "int64 5"
    by (simp add: int64_def)
  from WriteTo_sink_counts [OF 1 2 3 4 5] 1 2 5 show ?thesis
    by (simp add: Len_def wrap64_def)
qed

subsection \<open>ReadOnce\<close>


lemma ReadOnce_iter_Continue:
  assumes "ReadOnce_iter rd gb conn d st = Continue st'"
  shows "\<exists>h1 b1 data.
     ReadOnce_room gb (ro_first st) (ro_heap st) (ro_buf st) = Inr (h1, b1)
     \<and> rd (ro_src st) (ReadOnce_deadline conn (ro_first st) d) (Cap h1 b1 - buf_len b1)
         = ((data, None), ro_src st')
     \<and> length data = Cap h1 b1 - buf_len b1
     \<and> ro_loop st \<and> ro_loop st' \<and> \<not> ro_first st'
     \<and> ro_n st' \<le> MaxRead"
  using assms
  by (auto simp: ReadOnce_iter_def Let_def split: sum.splits prod.splits if_splits option.splits)


lemma ReadOnce_at_flag:
  "ReadOnce_at rd gb conn d st0 k st \<Longrightarrow> ro_loop st = ro_loop st0"
proof (induction rule: ReadOnce_at.induct)
  case first_read
  show ?case by simp
next
  case (next_read k st st')
  from ReadOnce_iter_Continue [OF next_read(2)] have "ro_loop st" "ro_loop st'" by blast+
  with next_read(3) show ?case by simp
qed

text \<open>A source that is not a \<open>net.Conn\<close> is read once: there is no pass but the first.\<close>

lemma ReadOnce_single_attempt:
  assumes "ReadOnce_at rd gb False d (ReadOnce_start False h b src) k st"
  shows "k = 0"
  using assms
proof (cases rule: ReadOnce_at.cases)
  case first_read
  then show ?thesis by simp
next
  case (next_read k' st1)
  from ReadOnce_iter_Continue [OF next_read(3)] have "ro_loop st1" by blast
  with ReadOnce_at_flag [OF next_read(2)] show ?thesis
    by (simp add: ReadOnce_start_def)
qed



end
